theory Spec2Isabelle
  imports Complex_Main "HOL-Library.Sublist"
begin

section \<open>Strings as the document processor uses them\<close>

text \<open>
  A JavaScript string is a sequence of UTF-16 code units. The model covers the strings
  whose code units are below 256 (Latin-1), one \<^typ>\<open>char\<close> per code unit, and gives
  each string method used by \<open>DocumentProcessor\<close> its ECMAScript meaning on that range.
\<close>

definition isWhiteSpace :: "char \<Rightarrow> bool" where
  \<comment> \<open>what \<open>trim\<close> strips: TAB, LF, VT, FF, CR, SP and NBSP\<close>
  "isWhiteSpace c = (of_char c \<in> set [9, 10, 11, 12, 13, 32, 160 :: nat])"

definition trim :: "string \<Rightarrow> string" where
  "trim s = rev (dropWhile isWhiteSpace (rev (dropWhile isWhiteSpace s)))"

definition toLowerCase_char :: "char \<Rightarrow> char" where
  \<comment> \<open>A-Z, and the Latin-1 capitals U+00C0..U+00DE without the multiplication sign\<close>
  "toLowerCase_char c =
     (let n = of_char c :: nat
      in if (65 \<le> n \<and> n \<le> 90) \<or> (192 \<le> n \<and> n \<le> 222 \<and> n \<noteq> 215)
         then char_of (n + 32) else c)"

definition toLowerCase :: "string \<Rightarrow> string" where
  "toLowerCase s = map toLowerCase_char s"

fun startsWith :: "string \<Rightarrow> string \<Rightarrow> bool" where
  "startsWith s [] = True"
| "startsWith [] (t # ts) = False"
| "startsWith (c # cs) (t # ts) = (c = t \<and> startsWith cs ts)"

fun includes_str :: "string \<Rightarrow> string \<Rightarrow> bool" where
  \<comment> \<open>\<open>s.includes(t)\<close>: \<open>t\<close> occurs in \<open>s\<close> as a contiguous substring\<close>
  "includes_str [] t = (t = [])"
| "includes_str (c # cs) t = (startsWith (c # cs) t \<or> includes_str cs t)"

fun split_on :: "char \<Rightarrow> string \<Rightarrow> string list" where
  \<comment> \<open>\<open>s.split(sep)\<close> for a one-character separator; \<open>''''.split(sep)\<close> is \<open>['''']\<close>\<close>
  "split_on sep [] = [[]]"
| "split_on sep (c # cs) =
     (if c = sep then [] # split_on sep cs
      else (case split_on sep cs of
              [] \<Rightarrow> [[c]]
            | p # ps \<Rightarrow> (c # p) # ps))"

definition isWordChar :: "char \<Rightarrow> bool" where
  \<comment> \<open>the class \<open>\w\<close> of a regular expression without flags: \<open>[A-Za-z0-9_]\<close>\<close>
  "isWordChar c =
     (let n = of_char c :: nat
      in (65 \<le> n \<and> n \<le> 90) \<or> (97 \<le> n \<and> n \<le> 122) \<or> (48 \<le> n \<and> n \<le> 57) \<or> n = 95)"

function split_nonword :: "string \<Rightarrow> string list" where
  \<comment> \<open>\<open>s.split(/\W+/)\<close>: cut at every maximal run of non-word characters\<close>
  "split_nonword [] = [[]]"
| "split_nonword (c # cs) =
     (if isWordChar c
      then (case split_nonword cs of
              [] \<Rightarrow> [[c]]
            | p # ps \<Rightarrow> (c # p) # ps)
      else [] # split_nonword (dropWhile (\<lambda>d. \<not> isWordChar d) cs))"
  by pat_completeness auto
termination
  by (relation "measure length") (auto simp: length_dropWhile_le less_Suc_eq_le)

fun join :: "string \<Rightarrow> string list \<Rightarrow> string" where
  \<comment> \<open>\<open>xs.join(sep)\<close>\<close>
  "join sep [] = []"
| "join sep [x] = x"
| "join sep (x # y # ys) = x @ sep @ join sep (y # ys)"

definition substring :: "string \<Rightarrow> nat \<Rightarrow> nat \<Rightarrow> string" where
  \<comment> \<open>\<open>s.substring(a, b)\<close>: both ends clamped to the length, swapped when \<open>a > b\<close>\<close>
  "substring s a b =
     (let a' = min a (length s); b' = min b (length s);
          lo = min a' b'; hi = max a' b'
      in take (hi - lo) (drop lo s))"

definition slice0 :: "'a list \<Rightarrow> int \<Rightarrow> 'a list" where
  \<comment> \<open>\<open>xs.slice(0, e)\<close>: a negative end counts from the end of the array\<close>
  "slice0 xs e = (if e < 0 then take (nat (int (length xs) + e)) xs else take (nat e) xs)"

definition slice :: "'a list \<Rightarrow> nat \<Rightarrow> nat \<Rightarrow> 'a list" where
  \<comment> \<open>\<open>xs.slice(a, b)\<close> for \<open>0 \<le> a \<le> b\<close>\<close>
  "slice xs a b = take (b - a) (drop a xs)"

function digits :: "nat \<Rightarrow> string" where
  \<comment> \<open>a page number as the template literal prints it\<close>
  "digits n =
     (if n < 10 then [char_of (48 + n)]
      else digits (n div 10) @ [char_of (48 + n mod 10)])"
  by pat_completeness auto
termination
  by (relation "measure id") auto


section \<open>Data model\<close>

record DocumentChunk =
  fileName :: string
  content :: string
  index :: nat

record File =
  name :: string
  file_text :: string

datatype error = Error string | TypeError

text \<open>
  The PDF library is external: when it is loaded, it gives for a file either a failure or
  the pages of the document, each page the list of the \<open>str\<close> of its text items.
\<close>

type_synonym pdfjs = "File \<Rightarrow> error + string list list"

record ScoredChunk =
  chunk :: DocumentChunk
  score :: int


section \<open>Chunking\<close>

definition CHUNK_SIZE :: nat where
  "CHUNK_SIZE = 4000"

definition ROWS_PER_CHUNK :: nat where
  "ROWS_PER_CHUNK = 30"

function chunkText_loop :: "string \<Rightarrow> string \<Rightarrow> nat \<Rightarrow> DocumentChunk list \<Rightarrow> DocumentChunk list" where
  "chunkText_loop text fname i chunks =
     (if i < length text
      then chunkText_loop text fname (i + CHUNK_SIZE)
             (chunks @ [\<lparr>fileName = fname,
                         content = substring text i (i + CHUNK_SIZE),
                         index = length chunks\<rparr>])
      else chunks)"
  by pat_completeness auto
termination
  by (relation "measure (\<lambda>(text, fname, i, chunks). length text - i)")
     (auto simp: CHUNK_SIZE_def)

definition chunkText :: "string \<Rightarrow> string \<Rightarrow> DocumentChunk list" where
  "chunkText text fname = chunkText_loop text fname 0 []"

fun enumerate_from :: "nat \<Rightarrow> 'a list \<Rightarrow> ('a \<times> nat) list" where
  "enumerate_from i [] = []"
| "enumerate_from i (x # xs) = (x, i) # enumerate_from (Suc i) xs"

definition formatRow :: "string list \<Rightarrow> string \<Rightarrow> string" where
  \<comment> \<open>a missing \<open>values[idx]\<close> is \<open>undefined\<close>, which the template literal prints as such\<close>
  "formatRow headers row =
     (let vals = split_on CHR '','' row
      in join '' | ''
           (map (\<lambda>(h, idx). trim h @ '': '' @
                    (if idx < length vals then trim (vals ! idx) else ''undefined''))
                (enumerate_from 0 headers)))"

function processCSV_loop ::
  "string \<Rightarrow> string list \<Rightarrow> string list \<Rightarrow> nat \<Rightarrow> DocumentChunk list \<Rightarrow> DocumentChunk list" where
  "processCSV_loop fname headers dataRows i chunks =
     (if i < length dataRows
      then (let chunkRows = slice dataRows i (i + ROWS_PER_CHUNK);
                formattedContent = join [CHR 0x0A] (map (formatRow headers) chunkRows)
            in processCSV_loop fname headers dataRows (i + ROWS_PER_CHUNK)
                 (chunks @ [\<lparr>fileName = fname,
                             content = ''[CSV Header: '' @ join '', '' headers @ '']'' @
                                       [CHR 0x0A] @ formattedContent,
                             index = length chunks\<rparr>]))
      else chunks)"
  by pat_completeness auto
termination
  by (relation "measure (\<lambda>(fname, headers, dataRows, i, chunks). length dataRows - i)")
     (auto simp: ROWS_PER_CHUNK_def)

definition csv_rows :: "string \<Rightarrow> string list" where
  "csv_rows txt = filter (\<lambda>row. length row > 0) (map trim (split_on CHR 0x0A txt))"

definition processCSV :: "File \<Rightarrow> error + DocumentChunk list" where
  \<comment> \<open>\<open>rows[0].split\<close> on an empty row list reads a property of \<open>undefined\<close>\<close>
  "processCSV file =
     (case csv_rows (file_text file) of
        [] \<Rightarrow> Inl TypeError
      | r # dataRows \<Rightarrow>
          Inr (processCSV_loop (name file) (split_on CHR '','' r) dataRows 0 []))"

definition page_block :: "nat \<Rightarrow> string list \<Rightarrow> string" where
  \<comment> \<open>what one page adds to \<open>fullText\<close>\<close>
  "page_block i items =
     ''--- Page '' @ digits i @ '' ---'' @ [CHR 0x0A] @ join '' '' items @ [CHR 0x0A, CHR 0x0A]"

fun pages_text :: "nat \<Rightarrow> string list list \<Rightarrow> string \<Rightarrow> string" where
  "pages_text i [] fullText = fullText"
| "pages_text i (items # pages) fullText =
     pages_text (Suc i) pages (fullText @ page_block i items)"

definition processPDF :: "pdfjs option \<Rightarrow> File \<Rightarrow> error + DocumentChunk list" where
  "processPDF pdfjsLib file =
     (case pdfjsLib of
        None \<Rightarrow> Inl (Error ''PDF.js library not loaded'')
      | Some lib \<Rightarrow>
          (case lib file of
             Inl e \<Rightarrow> Inl e
           | Inr pages \<Rightarrow> Inr (chunkText (pages_text 1 pages []) (name file))))"

definition extension :: "File \<Rightarrow> string" where
  \<comment> \<open>\<open>file.name.split('.').pop()?.toLowerCase()\<close>; the split is never empty\<close>
  "extension file = toLowerCase (last (split_on CHR ''.'' (name file)))"

definition processFile :: "pdfjs option \<Rightarrow> File \<Rightarrow> error + DocumentChunk list" where
  "processFile pdfjsLib file =
     (if extension file = ''pdf'' then processPDF pdfjsLib file
      else if extension file = ''csv'' then processCSV file
      else Inl (Error ''Unsupported file type. Please upload PDF or CSV.''))"


section \<open>Retrieval\<close>

definition queryTerms :: "string \<Rightarrow> string list" where
  "queryTerms query = filter (\<lambda>t. length t > 2) (split_nonword (toLowerCase query))"

definition aggregation_keywords :: "string list" where
  "aggregation_keywords =
     [''total'', ''count'', ''sum'', ''average'', ''summary'', ''report'', ''analyze'',
      ''overview'', ''all'']"

definition isAggregation :: "string \<Rightarrow> bool" where
  "isAggregation query =
     list_ex (\<lambda>term. includes_str (toLowerCase query) term) aggregation_keywords"

definition scoreChunk :: "string \<Rightarrow> DocumentChunk \<Rightarrow> ScoredChunk" where
  "scoreChunk query c =
     (let contentLower = toLowerCase (content c);
          score0 = (if includes_str contentLower (toLowerCase query) then 10 else 0)
      in \<lparr>chunk = c,
          score = foldl (\<lambda>s term. if includes_str contentLower term then s + 1 else s)
                    score0 (queryTerms query)\<rparr>)"

definition scoredChunks :: "string \<Rightarrow> DocumentChunk list \<Rightarrow> ScoredChunk list" where
  "scoredChunks query chunks = map (scoreChunk query) chunks"

fun insert_by :: "('a \<Rightarrow> 'a \<Rightarrow> int) \<Rightarrow> 'a \<Rightarrow> 'a list \<Rightarrow> 'a list" where
  "insert_by cmp x [] = [x]"
| "insert_by cmp x (y # ys) =
     (if cmp x y \<le> 0 then x # y # ys else y # insert_by cmp x ys)"

definition sort_by :: "('a \<Rightarrow> 'a \<Rightarrow> int) \<Rightarrow> 'a list \<Rightarrow> 'a list" where
  \<comment> \<open>\<open>xs.sort(cmp)\<close>, which ECMAScript requires to be stable: an element stays in front
      of the later elements that it does not compare greater than\<close>
  "sort_by cmp xs = foldr (insert_by cmp) xs []"

definition relevant :: "string \<Rightarrow> DocumentChunk list \<Rightarrow> int \<Rightarrow> DocumentChunk list" where
  "relevant query chunks limit =
     map chunk
       (slice0
          (sort_by (\<lambda>a b. score b - score a)
             (filter (\<lambda>item. score item > 0) (scoredChunks query chunks)))
          (if isAggregation query then limit * 2 else limit))"

definition findRelevantChunks :: "string \<Rightarrow> DocumentChunk list \<Rightarrow> int \<Rightarrow> DocumentChunk list" where
  "findRelevantChunks query chunks limit =
     (if isAggregation query \<and> length chunks < 50 then chunks
      else if length (relevant query chunks limit) = 0 \<and> length chunks > 0
           then slice0 chunks (if isAggregation query then 20 else 5)
           else relevant query chunks limit)"

section \<open>Example inputs\<close>

definition csv31 :: File where
  "csv31 = \<lparr>name = ''t.csv'', file_text = concat (replicate 32 (''a,b'' @ [CHR 0x0A]))\<rparr>"

definition kb :: "nat \<Rightarrow> DocumentChunk list" where
  \<comment> \<open>a knowledge base of \<open>n\<close> chunks of one file\<close>
  "kb n = map (\<lambda>i. \<lparr>fileName = ''report.csv'', content = ''row '' @ digits i, index = i\<rparr>) [0..<n]"

definition fruit :: "DocumentChunk list" where
  "fruit = [\<lparr>fileName = ''fruit.pdf'', content = ''apple banana'', index = 0\<rparr>,
            \<lparr>fileName = ''fruit.pdf'', content = ''banana cherry'', index = 1\<rparr>,
            \<lparr>fileName = ''fruit.pdf'', content = ''apple apple cherry'', index = 2\<rparr>]"

definition pies :: "DocumentChunk list" where
  "pies = [\<lparr>fileName = ''menu.pdf'', content = ''apple'', index = 0\<rparr>,
           \<lparr>fileName = ''menu.pdf'', content = ''Apple Pie'', index = 1\<rparr>,
           \<lparr>fileName = ''menu.pdf'', content = ''pie'', index = 2\<rparr>,
           \<lparr>fileName = ''menu.pdf'', content = ''tea'', index = 3\<rparr>,
           \<lparr>fileName = ''menu.pdf'', content = ''sweet apple pie'', index = 4\<rparr>,
           \<lparr>fileName = ''menu.pdf'', content = ''apple tart'', index = 5\<rparr>]"

declare chunkText_loop.simps [simp del]

declare processCSV_loop.simps [simp del]


section \<open>Substring test\<close>

lemma startsWith_iff: "startsWith s t \<longleftrightarrow> (\<exists>ss. s = t @ ss)"
  by (induction s t rule: startsWith.induct) auto

lemma includes_str_iff: "includes_str s t \<longleftrightarrow> (\<exists>ps ss. s = ps @ t @ ss)"
proof (induction s)
  case Nil
  then show ?case by auto
next
  case (Cons c cs)
  show ?case
  proof
    assume "includes_str (c # cs) t"
    then consider "startsWith (c # cs) t" | "includes_str cs t" by auto
    then show "\<exists>ps ss. c # cs = ps @ t @ ss"
    proof cases
      case 1
      then obtain ss where "c # cs = t @ ss" by (auto simp: startsWith_iff)
      then have "c # cs = [] @ t @ ss" by simp
      then show ?thesis by blast
    next
      case 2
      then obtain ps ss where "cs = ps @ t @ ss" using Cons.IH by auto
      then have "c # cs = (c # ps) @ t @ ss" by simp
      then show ?thesis by blast
    qed
  next
    assume "\<exists>ps ss. c # cs = ps @ t @ ss"
    then obtain ps ss where eq: "c # cs = ps @ t @ ss" by auto
    show "includes_str (c # cs) t"
    proof (cases ps)
      case Nil
      with eq have "startsWith (c # cs) t" by (auto simp: startsWith_iff)
      then show ?thesis by simp
    next
      case (Cons p ps')
      with eq have "cs = ps' @ t @ ss" by simp
      then have "includes_str cs t" using Cons.IH by auto
      then show ?thesis by simp
    qed
  qed
qed

section \<open>The free-text chunker\<close>

lemma substring_step:
  "i < length s \<Longrightarrow> substring s i (i + n) = take n (drop i s)"
  by (auto simp: substring_def Let_def min_def max_def)

lemma ceil_div_step:
  fixes c i n :: nat
  assumes "0 < c" and "i < n"
  shows "(n - i + (c - 1)) div c = Suc ((n - (i + c) + (c - 1)) div c)"
proof (cases "i + c \<le> n")
  case True
  define m where "m = n - (i + c) + (c - 1)"
  from True have "n - i + (c - 1) = m + c" by (simp add: m_def)
  moreover have "(m + c) div c = Suc (m div c)" using assms(1) by simp
  ultimately show ?thesis by (simp only: m_def)
next
  case False
  then have z: "n - (i + c) = 0" by simp
  have "(n - i + (c - 1)) div c = 1"
  proof (rule div_nat_eqI)
    show "c * 1 \<le> n - i + (c - 1)" using assms by simp
    show "n - i + (c - 1) < c * Suc 1" using assms False by simp
  qed
  moreover have "(c - 1) div c = 0" using assms by simp
  ultimately show ?thesis by (simp only: z) simp
qed
lemma chunkText_loop_length:
  "length (chunkText_loop t f i cs) = length cs + (length t - i + (CHUNK_SIZE - 1)) div CHUNK_SIZE"
proof (induction t f i cs rule: chunkText_loop.induct)
  case (1 t f i cs)
  show ?case
  proof (cases "i < length t")
    case True
    have "(length t - i + (CHUNK_SIZE - 1)) div CHUNK_SIZE
            = Suc ((length t - (i + CHUNK_SIZE) + (CHUNK_SIZE - 1)) div CHUNK_SIZE)"
      using True by (intro ceil_div_step) (simp_all add: CHUNK_SIZE_def)
    with True 1 show ?thesis
      by (subst chunkText_loop.simps) simp
  next
    case False
    then show ?thesis
      by (subst chunkText_loop.simps) (simp add: CHUNK_SIZE_def)
  qed
qed

lemma chunkText_loop_index:
  "map index (chunkText_loop t f i cs) =
     map index cs @ [length cs ..< length (chunkText_loop t f i cs)]"
proof (induction t f i cs rule: chunkText_loop.induct)
  case (1 t f i cs)
  show ?case
  proof (cases "i < length t")
    case True
    let ?cs' = "cs @ [\<lparr>fileName = f, content = substring t i (i + CHUNK_SIZE), index = length cs\<rparr>]"
    have le: "length ?cs' \<le> length (chunkText_loop t f (i + CHUNK_SIZE) ?cs')"
      by (simp add: chunkText_loop_length)
    have "map index (chunkText_loop t f (i + CHUNK_SIZE) ?cs') =
            map index ?cs' @ [length ?cs' ..< length (chunkText_loop t f (i + CHUNK_SIZE) ?cs')]"
      using 1 True by simp
    also have "\<dots> = map index cs @ [length cs ..< length (chunkText_loop t f (i + CHUNK_SIZE) ?cs')]"
      using le by (simp add: upt_conv_Cons)
    finally show ?thesis
      using True by (subst (1 2) chunkText_loop.simps) simp
  next
    case False
    then show ?thesis
      by (subst (1 2) chunkText_loop.simps) simp
  qed
qed

lemma chunkText_loop_concat:
  "concat (map content (chunkText_loop t f i cs)) = concat (map content cs) @ drop i t"
proof (induction t f i cs rule: chunkText_loop.induct)
  case (1 t f i cs)
  show ?case
  proof (cases "i < length t")
    case True
    have "take CHUNK_SIZE (drop i t) @ drop (i + CHUNK_SIZE) t = drop i t"
      by (metis add.commute append_take_drop_id drop_drop)
    with True 1 show ?thesis
      by (subst chunkText_loop.simps) (simp add: substring_step)
  next
    case False
    then show ?thesis
      by (subst chunkText_loop.simps) simp
  qed
qed

lemma chunkText_loop_nth:
  "j < length (chunkText_loop t f i cs) \<Longrightarrow>
   chunkText_loop t f i cs ! j =
     (if j < length cs then cs ! j
      else \<lparr>fileName = f,
            content = take CHUNK_SIZE (drop (i + (j - length cs) * CHUNK_SIZE) t),
            index = j\<rparr>)"
proof (induction t f i cs rule: chunkText_loop.induct)
  case (1 t f i cs)
  show ?case
  proof (cases "i < length t")
    case True
    let ?cs' = "cs @ [\<lparr>fileName = f, content = substring t i (i + CHUNK_SIZE), index = length cs\<rparr>]"
    have eq: "chunkText_loop t f i cs = chunkText_loop t f (i + CHUNK_SIZE) ?cs'"
      using True by (subst chunkText_loop.simps) simp
    have j: "j < length (chunkText_loop t f (i + CHUNK_SIZE) ?cs')"
      using "1.prems" eq by simp
    have ih: "chunkText_loop t f (i + CHUNK_SIZE) ?cs' ! j =
       (if j < length ?cs' then ?cs' ! j
        else \<lparr>fileName = f,
              content = take CHUNK_SIZE (drop (i + CHUNK_SIZE + (j - length ?cs') * CHUNK_SIZE) t),
              index = j\<rparr>)"
      using "1.IH" [OF True j] .
    consider "j < length cs" | "j = length cs" | "length cs < j" by linarith
    then show ?thesis
    proof cases
      case 1
      then show ?thesis unfolding eq ih by (simp add: nth_append)
    next
      case 2
      then show ?thesis unfolding eq ih using True by (simp add: substring_step)
    next
      case 3
      then have "i + CHUNK_SIZE + (j - length ?cs') * CHUNK_SIZE = i + (j - length cs) * CHUNK_SIZE"
        by (cases "j - length cs") auto
      with 3 show ?thesis unfolding eq ih by (simp add: add.assoc)
    qed
  next
    case False
    then have "chunkText_loop t f i cs = cs" by (subst chunkText_loop.simps) simp
    with "1.prems" show ?thesis by simp
  qed
qed

lemma ceiling_chunks: "\<lceil>real n / 4000\<rceil> = int ((n + 3999) div 4000)"
  by linarith

lemma chunkText_length: "length (chunkText t f) = (length t + 3999) div 4000"
  by (simp add: chunkText_def chunkText_loop_length CHUNK_SIZE_def)

lemma chunkText_nth:
  "j < length (chunkText t f) \<Longrightarrow>
   chunkText t f ! j = \<lparr>fileName = f, content = take 4000 (drop (j * 4000) t), index = j\<rparr>"
  unfolding chunkText_def by (simp add: chunkText_loop_nth CHUNK_SIZE_def)

text \<open>
  Claim C5. For free text of length \<open>L > 0\<close>, \<open>chunkText\<close> produces exactly
  \<open>ceil (L / 4000)\<close> chunks, every chunk but the last one has exactly 4000 characters,
  and the contents of the chunks, concatenated in order, are the text again.
\<close>

theorem chunkText_count_sizes_roundtrip:
  "0 < length text \<Longrightarrow>
   int (length (chunkText text fname)) = \<lceil>real (length text) / 4000\<rceil> \<and>
   (\<forall>j. j + 1 < length (chunkText text fname) \<longrightarrow>
        length (content (chunkText text fname ! j)) = 4000) \<and>
   concat (map content (chunkText text fname)) = text"
proof (intro conjI allI impI)
  show "int (length (chunkText text fname)) = \<lceil>real (length text) / 4000\<rceil>"
    by (simp only: ceiling_chunks chunkText_length)
next
  fix j assume j: "j + 1 < length (chunkText text fname)"
  then have "j + 1 < (length text + 3999) div 4000" by (simp add: chunkText_length)
  then have "j + 2 \<le> (length text + 3999) div 4000" by simp
  then have "(j + 2) * 4000 \<le> length text + 3999"
    by (simp only: less_eq_div_iff_mult_less_eq)
  then have "j * 4000 + 4000 \<le> length text" by simp
  moreover have "chunkText text fname ! j =
      \<lparr>fileName = fname, content = take 4000 (drop (j * 4000) text), index = j\<rparr>"
    using j by (intro chunkText_nth) simp
  ultimately show "length (content (chunkText text fname ! j)) = 4000" by simp
next
  show "concat (map content (chunkText text fname)) = text"
    by (simp add: chunkText_def chunkText_loop_concat)
qed

text \<open>
  The theorem at a text of 8000 characters: two chunks, the first of 4000 characters.
\<close>

theorem chunkText_count_sizes_roundtrip_witness:
  "length (chunkText (replicate 8000 CHR ''a'') ''doc.pdf'') = 2 \<and>
   length (content (chunkText (replicate 8000 CHR ''a'') ''doc.pdf'' ! 0)) = 4000 \<and>
   concat (map content (chunkText (replicate 8000 CHR ''a'') ''doc.pdf'')) = replicate 8000 CHR ''a''"
proof -
  have len: "length (replicate 8000 CHR ''a'') = 8000"
    by (simp only: length_replicate)
  have pos: "0 < length (replicate 8000 CHR ''a'')"
    unfolding len by simp
  have two: "\<lceil>real (8000::nat) / 4000\<rceil> = 2"
    by simp
  show ?thesis
    using chunkText_count_sizes_roundtrip [OF pos, of "''doc.pdf''"]
    unfolding len two by simp
qed

text \<open>
  Claim C3, as stated: free text that is empty or consists of whitespace only gives zero
  chunks. \<open>chunkText\<close> slices by character offset and never looks at the characters:
  a text of one space gives one chunk.
\<close>

theorem chunkText_whitespace_counterexample:
  "isWhiteSpace CHR '' '' \<and> chunkText '' '' ''doc.pdf'' \<noteq> []"
  by (simp add: isWhiteSpace_def chunkText_def chunkText_loop.simps substring_def CHUNK_SIZE_def)

text \<open>
  Claim C3, amended: \<open>chunkText\<close> produces zero chunks exactly when the text is the
  empty string; every non-empty text, whitespace or not, gives at least one chunk.
\<close>

theorem chunkText_empty_iff: "chunkText text fname = [] \<longleftrightarrow> text = []"
proof -
  have "length (chunkText text fname) = 0 \<longleftrightarrow> length text = 0"
    unfolding chunkText_length by (simp add: div_eq_0_iff)
  then show ?thesis by simp
qed

section \<open>The tabular chunker\<close>

lemma processCSV_loop_length_le:
  "length cs \<le> length (processCSV_loop f hs rows i cs)"
proof (induction f hs rows i cs rule: processCSV_loop.induct)
  case (1 f hs rows i cs)
  show ?case
  proof (cases "i < length rows")
    case True
    then show ?thesis
      using 1 by (subst processCSV_loop.simps) (auto simp: Let_def dest: Suc_leD)
  next
    case False
    then show ?thesis by (subst processCSV_loop.simps) simp
  qed
qed

lemma processCSV_loop_index:
  "map index (processCSV_loop f hs rows i cs) =
     map index cs @ [length cs ..< length (processCSV_loop f hs rows i cs)]"
proof (induction f hs rows i cs rule: processCSV_loop.induct)
  case (1 f hs rows i cs)
  show ?case
  proof (cases "i < length rows")
    case True
    define c where "c = \<lparr>fileName = f,
       content = ''[CSV Header: '' @ join '', '' hs @ '']'' @ [CHR 0x0A] @
                 join [CHR 0x0A] (map (formatRow hs) (slice rows i (i + ROWS_PER_CHUNK))),
       index = length cs\<rparr>"
    have eq: "processCSV_loop f hs rows i cs = processCSV_loop f hs rows (i + ROWS_PER_CHUNK) (cs @ [c])"
      using True by (subst processCSV_loop.simps) (simp add: Let_def c_def)
    have le: "length (cs @ [c]) \<le> length (processCSV_loop f hs rows (i + ROWS_PER_CHUNK) (cs @ [c]))"
      by (rule processCSV_loop_length_le)
    have "map index (processCSV_loop f hs rows (i + ROWS_PER_CHUNK) (cs @ [c])) =
            map index (cs @ [c]) @
            [length (cs @ [c]) ..< length (processCSV_loop f hs rows (i + ROWS_PER_CHUNK) (cs @ [c]))]"
      using "1.IH" [OF True refl refl] unfolding c_def .
    also have "\<dots> = map index cs @
            [length cs ..< length (processCSV_loop f hs rows (i + ROWS_PER_CHUNK) (cs @ [c]))]"
      using le by (simp add: upt_conv_Cons c_def)
    finally show ?thesis unfolding eq .
  next
    case False
    then have "processCSV_loop f hs rows i cs = cs" by (subst processCSV_loop.simps) simp
    then show ?thesis by simp
  qed
qed

lemma split_on_set: "p \<in> set (split_on sep s) \<Longrightarrow> set p \<subseteq> set s"
proof (induction s arbitrary: p)
  case Nil
  then show ?case by simp
next
  case (Cons c cs)
  show ?case
  proof (cases "c = sep")
    case True
    with Cons show ?thesis by auto
  next
    case False
    show ?thesis
    proof (cases "split_on sep cs")
      case Nil
      with False Cons.prems show ?thesis by simp
    next
      case (Cons q qs)
      with False Cons.prems have "p = c # q \<or> p \<in> set qs" by simp
      moreover have "set q \<subseteq> set cs" using Cons.IH [of q] Cons by simp
      moreover have "p \<in> set qs \<Longrightarrow> set p \<subseteq> set cs" using Cons.IH [of p] Cons by simp
      ultimately show ?thesis by auto
    qed
  qed
qed

lemma trim_whitespace: "\<forall>c \<in> set s. isWhiteSpace c \<Longrightarrow> trim s = []"
proof -
  assume "\<forall>c \<in> set s. isWhiteSpace c"
  then have e: "dropWhile isWhiteSpace s = []" by (simp add: dropWhile_eq_Nil_conv)
  show ?thesis unfolding trim_def e by simp
qed

lemma csv_rows_whitespace:
  assumes "\<forall>c \<in> set txt. isWhiteSpace c"
  shows "csv_rows txt = []"
proof -
  have "trim p = []" if "p \<in> set (split_on CHR 0x0A txt)" for p
    using that assms split_on_set [of p "CHR 0x0A" "txt"] by (intro trim_whitespace) blast
  then show ?thesis
    by (simp add: csv_rows_def filter_empty_conv)
qed

text \<open>
  Claim C10. On tabular content without a non-blank line (empty, or whitespace only, line
  breaks included) \<open>processCSV\<close> does not return zero chunks: the row list is empty
  after the blank lines are dropped, and reading the header row fails with a type error.
\<close>

theorem processCSV_blank_fails:
  "\<forall>c \<in> set (file_text file). isWhiteSpace c \<Longrightarrow>
   processCSV file = Inl TypeError \<and> processCSV file \<noteq> Inr []"
  by (simp add: processCSV_def csv_rows_whitespace)

text \<open>The theorem at a file of two lines of spaces.\<close>

theorem processCSV_blank_fails_witness:
  "list_all isWhiteSpace ('' '' @ [CHR 0x0A] @ ''  '') \<and>
   processCSV \<lparr>name = ''t.csv'', file_text = '' '' @ [CHR 0x0A] @ ''  ''\<rparr> = Inl TypeError"
  using processCSV_blank_fails [of "\<lparr>name = ''t.csv'', file_text = '' '' @ [CHR 0x0A] @ ''  ''\<rparr>"]
  by (simp add: isWhiteSpace_def)

lemma processCSV_index:
  "processCSV file = Inr chunks \<Longrightarrow> map index chunks = [0..<length chunks]"
  using processCSV_loop_index [of _ _ _ 0 "[]"]
  by (auto simp: processCSV_def split: list.splits)

lemma chunkText_index: "map index (chunkText text fname) = [0..<length (chunkText text fname)]"
  using chunkText_loop_index [of "text" fname 0 "[]"] by (simp add: chunkText_def)

lemma processPDF_index:
  "processPDF lib file = Inr chunks \<Longrightarrow> map index chunks = [0..<length chunks]"
  by (auto simp: processPDF_def chunkText_index split: option.splits sum.splits)

text \<open>
  Claim C8. The chunks of one invocation carry the positions \<open>0, 1, \<dots>, n - 1\<close> in
  output order, without gap or duplicate: for the free-text chunker, for the tabular
  chunker, and for \<open>processFile\<close>, which dispatches to them.
\<close>

theorem positions_contiguous:
  "map index (chunkText text fname) = [0..<length (chunkText text fname)] \<and>
   (\<forall>chunks. processCSV file = Inr chunks \<longrightarrow> map index chunks = [0..<length chunks]) \<and>
   (\<forall>chunks. processFile lib file = Inr chunks \<longrightarrow> map index chunks = [0..<length chunks])"
  by (auto simp only: chunkText_index processFile_def dest: processCSV_index processPDF_index
           split: if_splits)

text \<open>The theorem at a table of 31 data rows, which gives two chunks.\<close>

theorem positions_contiguous_witness:
  "(\<exists>c0 c1. processCSV csv31 = Inr [c0, c1] \<and> map index [c0, c1] = [0, 1])"
proof -
  have "case processCSV csv31 of Inl e \<Rightarrow> False | Inr cs \<Rightarrow> length cs = 2"
    by code_simp
  then obtain c0 c1 where r: "processCSV csv31 = Inr [c0, c1]"
    by (cases "processCSV csv31") (auto simp: length_Suc_conv numeral_2_eq_2)
  from positions_contiguous [of "[]" "[]" csv31 None] r
  have "map index [c0, c1] = [0..<length [c0, c1]]" by blast
  then have "map index [c0, c1] = [0, 1]" by (simp add: upt_rec)
  with r show ?thesis by (intro exI conjI)
qed

text \<open>
  Claim C4 says that a data row with fewer fields than the header shows each missing
  trailing field as empty. The optional chaining \<open>values[idx]?.trim()\<close> gives
  \<open>undefined\<close> for a missing field, and the template literal prints that value as the
  word \<open>undefined\<close>: here the code run on a header of two fields and a row of one.
\<close>

theorem processCSV_missing_field_undefined:
  "processCSV \<lparr>name = ''t.csv'', file_text = ''a,b'' @ [CHR 0x0A] @ ''1''\<rparr> =
     Inr [\<lparr>fileName = ''t.csv'',
           content = ''[CSV Header: a, b]'' @ [CHR 0x0A] @ ''a: 1 | b: undefined'',
           index = 0\<rparr>]"
  by code_simp

section \<open>Dispatch on the file extension\<close>

text \<open>
  Claim C9, as stated: a file whose extension is neither \<open>pdf\<close> nor \<open>csv\<close> fails
  with an error whose message names the offending kind. The message is the same for every
  file and does not contain the extension: for \<open>notes.txt\<close> it does not contain
  \<open>txt\<close>.
\<close>

theorem unsupported_counterexample:
  "extension \<lparr>name = ''notes.txt'', file_text = ''hello''\<rparr> = ''txt'' \<and>
   processFile None \<lparr>name = ''notes.txt'', file_text = ''hello''\<rparr> =
     Inl (Error ''Unsupported file type. Please upload PDF or CSV.'') \<and>
   \<not> includes_str ''Unsupported file type. Please upload PDF or CSV.'' ''txt''"
  by code_simp

text \<open>
  Claim C9, amended: a file whose lower-cased extension is neither \<open>pdf\<close> nor
  \<open>csv\<close> makes \<open>processFile\<close> fail with the fixed message, which names the two
  accepted kinds, and no chunk is produced.
\<close>

theorem unsupported_fixed_message:
  "extension file \<noteq> ''pdf'' \<Longrightarrow> extension file \<noteq> ''csv'' \<Longrightarrow>
   processFile lib file = Inl (Error ''Unsupported file type. Please upload PDF or CSV.'')"
  by (simp add: processFile_def)

text \<open>
  The theorem at the file \<open>notes.TXT\<close>.
\<close>

theorem unsupported_fixed_message_witness:
  "extension \<lparr>name = ''notes.TXT'', file_text = ''hello''\<rparr> \<noteq> ''pdf'' \<and>
   extension \<lparr>name = ''notes.TXT'', file_text = ''hello''\<rparr> \<noteq> ''csv'' \<and>
   processFile None \<lparr>name = ''notes.TXT'', file_text = ''hello''\<rparr> =
     Inl (Error ''Unsupported file type. Please upload PDF or CSV.'')"
proof -
  have a: "extension \<lparr>name = ''notes.TXT'', file_text = ''hello''\<rparr> \<noteq> ''pdf''" by code_simp
  have b: "extension \<lparr>name = ''notes.TXT'', file_text = ''hello''\<rparr> \<noteq> ''csv''" by code_simp
  show ?thesis using a b unsupported_fixed_message [OF a b, of None] by simp
qed

section \<open>Retrieval\<close>

lemma isAggregation_iff:
  "isAggregation query \<longleftrightarrow>
     (\<exists>k \<in> set aggregation_keywords. \<exists>ps ss. toLowerCase query = ps @ k @ ss)"
  by (simp only: isAggregation_def list_ex_iff includes_str_iff)

text \<open>
  Claim C6. When the lower-cased query contains one of the nine aggregation keywords as
  a substring and the collection has fewer than 50 chunks, \<open>findRelevantChunks\<close>
  returns the collection itself, unchanged and in its order: the result does not depend
  on any score.
\<close>

theorem aggregation_small_corpus_returns_all:
  "k \<in> set [''total'', ''count'', ''sum'', ''average'', ''summary'', ''report'', ''analyze'',
             ''overview'', ''all''] \<Longrightarrow>
   toLowerCase query = ps @ k @ ss \<Longrightarrow>
   length chunks < 50 \<Longrightarrow>
   findRelevantChunks query chunks limit = chunks"
proof -
  assume k: "k \<in> set [''total'', ''count'', ''sum'', ''average'', ''summary'', ''report'',
                        ''analyze'', ''overview'', ''all'']"
    and q: "toLowerCase query = ps @ k @ ss" and n: "length chunks < 50"
  from k have "k \<in> set aggregation_keywords" by (simp only: aggregation_keywords_def)
  with q have "isAggregation query" unfolding isAggregation_iff by blast
  with n show ?thesis by (simp add: findRelevantChunks_def)
qed

text \<open>
  The theorem at the query of scenario B and a knowledge base of 10 chunks.
\<close>

theorem aggregation_small_corpus_returns_all_witness:
  "toLowerCase ''Give me a SUMMARY of everything'' =
     ''give me a '' @ ''summary'' @ '' of everything'' \<and>
   length (kb 10) < 50 \<and>
   findRelevantChunks ''Give me a SUMMARY of everything'' (kb 10) 30 = kb 10"
proof -
  have k: "''summary'' \<in> set [''total'', ''count'', ''sum'', ''average'', ''summary'', ''report'',
                                ''analyze'', ''overview'', ''all'']"
    by simp
  have q: "toLowerCase ''Give me a SUMMARY of everything'' =
             ''give me a '' @ ''summary'' @ '' of everything''"
    by code_simp
  have n: "length (kb 10) < 50" by (simp add: kb_def)
  show ?thesis
    using q n aggregation_small_corpus_returns_all [OF k q n, of 30] by (intro conjI)
qed

lemma includes_str_Nil [simp]: "includes_str s []"
  by (cases s) simp_all

lemma insert_by_insort_key:
  "insert_by (\<lambda>a b. score b - score a) x ys = insort_key (\<lambda>a. - score a) x ys"
  by (induction ys) auto

lemma sort_by_sort_key:
  "sort_by (\<lambda>a b. score b - score a) xs = sort_key (\<lambda>a. - score a) xs"
  by (induction xs) (simp_all add: sort_by_def sort_key_def insert_by_insort_key)

lemma sort_by_ties:
  "(\<And>x y. x \<in> set xs \<Longrightarrow> y \<in> set xs \<Longrightarrow> cmp x y \<le> 0) \<Longrightarrow> sort_by cmp xs = xs"
proof (induction xs)
  case Nil
  then show ?case by (simp add: sort_by_def)
next
  case (Cons x xs)
  then have "sort_by cmp xs = xs" by simp
  then have "sort_by cmp (x # xs) = insert_by cmp x xs" by (simp add: sort_by_def)
  also have "\<dots> = x # xs" using Cons.prems by (cases xs) auto
  finally show ?case .
qed

lemma map_slice0: "map f (slice0 xs e) = slice0 (map f xs) e"
  by (simp add: slice0_def take_map)

lemma chunk_scoredChunks: "map chunk (scoredChunks query chunks) = chunks"
  by (induction chunks) (simp_all add: scoredChunks_def scoreChunk_def Let_def)

lemma queryTerms_empty: "queryTerms [] = []"
  by (simp add: queryTerms_def toLowerCase_def)

lemma not_isAggregation_empty: "\<not> isAggregation []"
  by (simp add: isAggregation_def aggregation_keywords_def toLowerCase_def)

lemma scoreChunk_empty: "scoreChunk [] c = \<lparr>chunk = c, score = 10\<rparr>"
  by (simp add: scoreChunk_def queryTerms_empty toLowerCase_def Let_def)

lemma relevant_empty_query: "relevant [] chunks limit = slice0 chunks limit"
proof -
  let ?S = "scoredChunks [] chunks"
  have sc: "\<And>x. x \<in> set ?S \<Longrightarrow> score x = 10"
    by (auto simp: scoredChunks_def scoreChunk_empty)
  then have "filter (\<lambda>item. score item > 0) ?S = ?S"
    by (simp add: filter_id_conv)
  moreover have "sort_by (\<lambda>a b. score b - score a) ?S = ?S"
    by (rule sort_by_ties) (simp add: sc)
  ultimately show ?thesis
    by (simp add: relevant_def not_isAggregation_empty map_slice0 chunk_scoredChunks)
qed

text \<open>
  Claim C1, as stated: on the empty query every chunk scores zero and the result is the
  fallback, the first 5 chunks. The empty string is a substring of every content, so
  every chunk gets the exact-phrase bonus: with 6 chunks and the default limit the scores
  are not zero and the result is not the first 5 chunks.
\<close>

theorem empty_query_counterexample:
  "map score (scoredChunks '''' (kb 6)) \<noteq> replicate 6 0 \<and>
   findRelevantChunks '''' (kb 6) 30 \<noteq> take 5 (kb 6)"
  by code_simp

text \<open>
  Claim C1, amended: on the empty query the term set is empty, every chunk scores 10
  (the exact-phrase bonus), and for a positive limit the result is the first \<open>limit\<close>
  chunks of the collection in their original order.
\<close>

theorem empty_query_takes_limit:
  "0 < limit \<Longrightarrow>
   queryTerms '''' = [] \<and>
   map score (scoredChunks '''' chunks) = replicate (length chunks) 10 \<and>
   findRelevantChunks '''' chunks limit = take (nat limit) chunks"
proof (intro conjI)
  assume l: "0 < limit"
  show "queryTerms '''' = []" by (rule queryTerms_empty)
  show "map score (scoredChunks '''' chunks) = replicate (length chunks) 10"
    by (induction chunks) (simp_all add: scoredChunks_def scoreChunk_empty)
  have r: "relevant [] chunks limit = take (nat limit) chunks"
    using l by (simp add: relevant_empty_query slice0_def)
  show "findRelevantChunks '''' chunks limit = take (nat limit) chunks"
  proof -
    from l have "\<not> (length (take (nat limit) chunks) = 0 \<and> length chunks > 0)"
      by (cases chunks) simp_all
    then have ne: "(length (take (nat limit) chunks) = 0 \<and> length chunks > 0) = False"
      by (rule eq_False [THEN iffD2])
    have na: "isAggregation [] = False"
      using not_isAggregation_empty by (rule eq_False [THEN iffD2])
    show ?thesis
      unfolding findRelevantChunks_def r by (simp only: ne na simp_thms if_False)
  qed
qed

text \<open>
  The theorem at 6 chunks and the default limit 30: all 6 chunks are returned.
\<close>

theorem empty_query_takes_limit_witness:
  "(0::int) < 30 \<and> map score (scoredChunks '''' (kb 6)) = replicate 6 10 \<and>
   findRelevantChunks '''' (kb 6) 30 = kb 6"
proof -
  have l: "length (kb 6) = 6" by (simp add: kb_def)
  have p: "(0::int) < 30" by simp
  show ?thesis using empty_query_takes_limit [OF p, of "kb 6"] by (simp add: l)
qed

text \<open>
  Claim C2, as stated: for the three chunks of scenario C and the query \<open>apple\<close> the
  scores are \<open>[1, 0, 1]\<close>. The two chunks that contain the query also get the
  exact-phrase bonus of 10.
\<close>

theorem fruit_scores_counterexample:
  "map score (scoredChunks ''apple'' fruit) \<noteq> [1, 0, 1]"
  by code_simp

text \<open>
  Claim C2, amended: whatever the file names and positions of the three chunks, the
  scores are \<open>[11, 0, 11]\<close>, the chunk of score 0 is excluded, and the other two are
  returned in their original relative order.
\<close>

theorem fruit_general:
  "map score (scoredChunks ''apple''
      [\<lparr>fileName = f0, content = ''apple banana'', index = i0\<rparr>,
       \<lparr>fileName = f1, content = ''banana cherry'', index = i1\<rparr>,
       \<lparr>fileName = f2, content = ''apple apple cherry'', index = i2\<rparr>]) = [11, 0, 11] \<and>
   findRelevantChunks ''apple''
      [\<lparr>fileName = f0, content = ''apple banana'', index = i0\<rparr>,
       \<lparr>fileName = f1, content = ''banana cherry'', index = i1\<rparr>,
       \<lparr>fileName = f2, content = ''apple apple cherry'', index = i2\<rparr>] 30 =
      [\<lparr>fileName = f0, content = ''apple banana'', index = i0\<rparr>,
       \<lparr>fileName = f2, content = ''apple apple cherry'', index = i2\<rparr>]"
proof -
  have q: "queryTerms ''apple'' = [''apple'']" by code_simp
  have l: "toLowerCase ''apple'' = ''apple''" by code_simp
  have a: "\<not> isAggregation ''apple''" by code_simp
  have c0: "toLowerCase ''apple banana'' = ''apple banana''" by code_simp
  have c1: "toLowerCase ''banana cherry'' = ''banana cherry''" by code_simp
  have c2: "toLowerCase ''apple apple cherry'' = ''apple apple cherry''" by code_simp
  have i0: "includes_str ''apple banana'' ''apple''" by code_simp
  have i1: "\<not> includes_str ''banana cherry'' ''apple''" by code_simp
  have i2: "includes_str ''apple apple cherry'' ''apple''" by code_simp
  have s0: "scoreChunk ''apple'' \<lparr>fileName = f0, content = ''apple banana'', index = i0\<rparr> =
      \<lparr>chunk = \<lparr>fileName = f0, content = ''apple banana'', index = i0\<rparr>, score = 11\<rparr>"
    unfolding scoreChunk_def Let_def q l by (simp only: DocumentChunk.simps c0 i0 foldl.simps if_True) simp
  have s1: "scoreChunk ''apple'' \<lparr>fileName = f1, content = ''banana cherry'', index = i1\<rparr> =
      \<lparr>chunk = \<lparr>fileName = f1, content = ''banana cherry'', index = i1\<rparr>, score = 0\<rparr>"
    unfolding scoreChunk_def Let_def q l by (simp only: DocumentChunk.simps c1 i1 foldl.simps if_False)
  have s2: "scoreChunk ''apple'' \<lparr>fileName = f2, content = ''apple apple cherry'', index = i2\<rparr> =
      \<lparr>chunk = \<lparr>fileName = f2, content = ''apple apple cherry'', index = i2\<rparr>, score = 11\<rparr>"
    unfolding scoreChunk_def Let_def q l by (simp only: DocumentChunk.simps c2 i2 foldl.simps if_True) simp
  show ?thesis
    unfolding findRelevantChunks_def relevant_def scoredChunks_def
    by (simp add: s0 s1 s2 a sort_by_def slice0_def)
qed

lemma scoredChunks_item:
  "x \<in> set (scoredChunks query chunks) \<Longrightarrow> x = scoreChunk query (chunk x)"
  by (auto simp: scoredChunks_def scoreChunk_def Let_def)

lemma filter_scoredChunks:
  "map chunk (filter P (scoredChunks query chunks)) =
     filter (\<lambda>c. P (scoreChunk query c)) chunks"
  by (induction chunks) (simp_all add: scoredChunks_def scoreChunk_def Let_def)

lemma slice0_prefix: "prefix (slice0 xs e) xs"
  by (simp add: slice0_def take_is_prefix)

lemma relevant_unfold:
  "relevant query chunks limit =
     map chunk (slice0 (sort_key (\<lambda>a. - score a)
                  (filter (\<lambda>item. score item > 0) (scoredChunks query chunks)))
                (if isAggregation query then limit * 2 else limit))"
  by (simp only: relevant_def sort_by_sort_key)

lemma sorted_items:
  assumes "x \<in> set (slice0 (sort_key (\<lambda>a. - score a)
                  (filter (\<lambda>item. score item > 0) (scoredChunks query chunks))) e)"
  shows "score (scoreChunk query (chunk x)) = score x" and "score x > 0"
proof -
  let ?R = "sort_key (\<lambda>a. - score a) (filter (\<lambda>item. score item > 0) (scoredChunks query chunks))"
  have "set (slice0 ?R e) \<subseteq> set ?R"
    using slice0_prefix [of ?R e] by (rule set_mono_prefix)
  with assms have "x \<in> set ?R" by blast
  then have x: "x \<in> set (scoredChunks query chunks)" and "score x > 0" by simp_all
  then show "score x > 0" by simp
  from x have "x = scoreChunk query (chunk x)" by (rule scoredChunks_item)
  then show "score (scoreChunk query (chunk x)) = score x" by simp
qed

lemma relevant_ties:
  "prefix (filter (\<lambda>c. score (scoreChunk query c) = k) (relevant query chunks limit))
          (filter (\<lambda>c. score (scoreChunk query c) = k) chunks)"
proof -
  define F where "F = filter (\<lambda>item. score item > 0) (scoredChunks query chunks)"
  define R where "R = sort_key (\<lambda>a. - score a) F"
  define e where "e = (if isAggregation query then limit * 2 else limit)"
  have rel: "relevant query chunks limit = map chunk (slice0 R e)"
    unfolding relevant_unfold R_def F_def e_def ..
  have items: "\<And>x. x \<in> set (slice0 R e) \<Longrightarrow> score (scoreChunk query (chunk x)) = score x"
    unfolding R_def F_def by (rule sorted_items(1))
  have pos: "\<And>x. x \<in> set (slice0 R e) \<Longrightarrow> score x > 0"
    unfolding R_def F_def by (rule sorted_items(2))
  have "filter (\<lambda>x. score (scoreChunk query (chunk x)) = k) (slice0 R e) =
        filter (\<lambda>x. score x = k) (slice0 R e)"
    by (rule filter_cong [OF refl]) (simp add: items)
  then have lhs: "filter (\<lambda>c. score (scoreChunk query c) = k) (relevant query chunks limit) =
      map chunk (filter (\<lambda>x. score x = k) (slice0 R e))"
    unfolding rel by (simp add: filter_map comp_def)
  show ?thesis
  proof (cases "k > 0")
    case False
    have "filter (\<lambda>x. score x = k) (slice0 R e) = []"
      unfolding filter_empty_conv using pos False by fastforce
    then show ?thesis unfolding lhs by simp
  next
    case True
    have "filter (\<lambda>x. - score x = - k) R = filter (\<lambda>x. - score x = - k) F"
      unfolding R_def by (rule sort_key_stable)
    then have st: "filter (\<lambda>x. score x = k) R = filter (\<lambda>x. score x = k) F" by simp
    have "prefix (filter (\<lambda>x. score x = k) (slice0 R e)) (filter (\<lambda>x. score x = k) R)"
      by (intro filter_mono_prefix slice0_prefix)
    then have p1: "prefix (map chunk (filter (\<lambda>x. score x = k) (slice0 R e)))
                          (map chunk (filter (\<lambda>x. score x = k) F))"
      unfolding st by (rule map_mono_prefix)
    have "filter (\<lambda>x. score x = k) F =
          filter (\<lambda>x. score x = k) (scoredChunks query chunks)"
      unfolding F_def filter_filter
      by (rule filter_cong [OF refl]) (use True in auto)
    then have "map chunk (filter (\<lambda>x. score x = k) F) =
          filter (\<lambda>c. score (scoreChunk query c) = k) chunks"
      by (simp only: filter_scoredChunks)
    with p1 show ?thesis unfolding lhs by simp
  qed
qed

lemma map_insort_key:
  "map h (insort_key (\<lambda>x. f (h x)) y zs) = insort_key f (h y) (map h zs)"
  by (induction zs) simp_all

lemma map_sort_key:
  "map h (sort_key (\<lambda>x. f (h x)) ys) = sort_key f (map h ys)"
  by (induction ys) (simp_all add: map_insort_key)

lemma sorted_wrt_ties:
  "(\<And>k. sorted_wrt Q (filter (\<lambda>x. key x = k) xs)) \<Longrightarrow>
   sorted_wrt (\<lambda>x y. key x = key y \<longrightarrow> Q x y) xs"
proof (induction xs)
  case Nil
  then show ?case by simp
next
  case (Cons x xs)
  have tl: "sorted_wrt Q (filter (\<lambda>x. key x = k) xs)" for k
    using Cons.prems [of k] by (cases "key x = k") simp_all
  have hd: "\<forall>y \<in> set xs. key x = key y \<longrightarrow> Q x y"
    using Cons.prems [of "key x"] by auto
  from Cons.IH [OF tl] hd show ?case by simp
qed

lemma chunk_scoreChunk: "chunk (scoreChunk query c) = c"
  by (simp add: scoreChunk_def Let_def)

lemma positions_of_relevant:
  fixes query chunks limit
  defines "sc \<equiv> \<lambda>j. score (scoreChunk query (chunks ! j))"
  shows "\<exists>js. relevant query chunks limit = map (\<lambda>j. chunks ! j) js \<and>
              list_all (\<lambda>j. j < length chunks) js \<and> distinct js \<and>
              sorted_wrt (\<lambda>i j. sc i = sc j \<longrightarrow> i < j) js \<and>
              sorted_wrt (\<lambda>i j. sc i \<ge> sc j) js"
proof -
  define n where "n = length chunks"
  define S where "S = scoredChunks query chunks"
  define e where "e = (if isAggregation query then limit * 2 else limit)"
  define D where "D = zip S [0..<n]"
  define FD where "FD = filter (\<lambda>p. score (fst p) > 0) D"
  define RD where "RD = sort_key (\<lambda>p. - score (fst p)) FD"
  define TD where "TD = slice0 RD e"
  have lenS: "length S = n" by (simp add: S_def scoredChunks_def n_def)
  have fstD: "map fst D = S" and sndD: "map snd D = [0..<n]"
    by (simp_all add: D_def lenS)
  have inD: "fst p = scoreChunk query (chunks ! snd p) \<and> snd p < n" if "p \<in> set D" for p
  proof -
    from that obtain i where "i < n" "p = (S ! i, [0..<n] ! i)"
      unfolding D_def by (auto simp: in_set_zip lenS)
    then show ?thesis by (simp add: S_def scoredChunks_def n_def)
  qed
  have sub: "set TD \<subseteq> set D"
  proof -
    have "set TD \<subseteq> set RD" unfolding TD_def using slice0_prefix [of RD e] by (rule set_mono_prefix)
    also have "\<dots> \<subseteq> set D" by (auto simp: RD_def FD_def)
    finally show ?thesis .
  qed
  have inT: "chunk (fst p) = chunks ! snd p \<and> score (fst p) = sc (snd p) \<and> snd p < length chunks"
    if "p \<in> set TD" for p
  proof -
    from that sub have "p \<in> set D" by blast
    from inD [OF this] show ?thesis by (simp add: chunk_scoreChunk sc_def n_def)
  qed
  \<comment> \<open>the decorated pipeline computes the source's one\<close>
  have "map fst RD = sort_key (\<lambda>a. - score a) (map fst FD)"
    unfolding RD_def by (rule map_sort_key)
  also have "map fst FD = filter (\<lambda>item. score item > 0) S"
    unfolding FD_def by (simp add: filter_map comp_def flip: fstD)
  finally have "map fst TD = slice0 (sort_key (\<lambda>a. - score a) (filter (\<lambda>item. score item > 0) S)) e"
    unfolding TD_def by (simp add: map_slice0)
  then have "relevant query chunks limit = map chunk (map fst TD)"
    by (simp only: relevant_unfold S_def e_def)
  also have "\<dots> = map (\<lambda>j. chunks ! j) (map snd TD)"
    by (simp add: inT)
  finally have out: "relevant query chunks limit = map (\<lambda>j. chunks ! j) (map snd TD)" .
  \<comment> \<open>positions are in range and distinct\<close>
  have range: "list_all (\<lambda>j. j < length chunks) (map snd TD)"
    by (simp add: list_all_iff inT)
  have "distinct D" unfolding D_def by (rule distinct_zipI2) simp
  then have "distinct TD" by (simp add: TD_def slice0_def RD_def FD_def)
  moreover have "inj_on snd (set D)"
    using sndD by (metis distinct_map distinct_upt)
  then have "inj_on snd (set TD)" using sub by (rule inj_on_subset)
  ultimately have dist: "distinct (map snd TD)" by (simp add: distinct_map)
  \<comment> \<open>ties are in input order\<close>
  have "sorted_wrt (\<lambda>x y. snd x < snd y) D"
    using sorted_wrt_upt [of 0 n] by (simp add: sorted_wrt_map flip: sndD)
  then have sFD: "sorted_wrt (\<lambda>x y. snd x < snd y) (filter (\<lambda>x. - score (fst x) = k) FD)" for k
    unfolding FD_def by (intro sorted_wrt_filter)
  have "sorted_wrt (\<lambda>x y. snd x < snd y) (filter (\<lambda>x. - score (fst x) = k) RD)" for k
    unfolding RD_def sort_key_stable by (rule sFD)
  then have "sorted_wrt (\<lambda>x y. - score (fst x) = - score (fst y) \<longrightarrow> snd x < snd y) RD"
    by (rule sorted_wrt_ties)
  then have "sorted_wrt (\<lambda>x y. - score (fst x) = - score (fst y) \<longrightarrow> snd x < snd y) TD"
    by (simp add: TD_def slice0_def sorted_wrt_take)
  then have "sorted_wrt (\<lambda>x y. sc (snd x) = sc (snd y) \<longrightarrow> snd x < snd y) TD"
  proof (rule sorted_wrt_mono_rel [rotated])
    fix x y assume "x \<in> set TD" "y \<in> set TD"
      and "- score (fst x) = - score (fst y) \<longrightarrow> snd x < snd y"
    then show "sc (snd x) = sc (snd y) \<longrightarrow> snd x < snd y"
      by (simp add: inT)
  qed
  then have ties: "sorted_wrt (\<lambda>i j. sc i = sc j \<longrightarrow> i < j) (map snd TD)"
    by (simp only: sorted_wrt_map)
  \<comment> \<open>scores descend\<close>
  have "sorted (map (\<lambda>p. - score (fst p)) RD)" unfolding RD_def by (rule sorted_sort_key)
  then have "sorted_wrt (\<lambda>x y. score (fst x) \<ge> score (fst y)) RD"
    by (simp add: sorted_wrt_map)
  then have "sorted_wrt (\<lambda>x y. score (fst x) \<ge> score (fst y)) TD"
    by (simp add: TD_def slice0_def sorted_wrt_take)
  then have "sorted_wrt (\<lambda>x y. sc (snd x) \<ge> sc (snd y)) TD"
  proof (rule sorted_wrt_mono_rel [rotated])
    fix x y assume "x \<in> set TD" "y \<in> set TD" and "score (fst y) \<le> score (fst x)"
    then show "sc (snd y) \<le> sc (snd x)"
      by (simp add: inT)
  qed
  then have desc: "sorted_wrt (\<lambda>i j. sc i \<ge> sc j) (map snd TD)"
    by (simp only: sorted_wrt_map)
  from out range dist ties desc show ?thesis by blast
qed

text \<open>
  Claim C7. When \<open>findRelevantChunks\<close> takes neither the small-corpus short-circuit
  nor the fallback, its output picks distinct positions \<open>js\<close> of the input collection,
  and any two returned chunks of equal score stand in the output in the order of their
  input positions; the output as a whole is in descending order of score. Put without
  positions: the returned chunks of any one score \<open>k\<close>, read in output order, are an
  initial segment of the input chunks of score \<open>k\<close>, read in input order.
\<close>

theorem ties_keep_input_order:
  "\<not> (isAggregation query \<and> length chunks < 50) \<Longrightarrow>
   \<not> (length (relevant query chunks limit) = 0 \<and> length chunks > 0) \<Longrightarrow>
   (\<exists>js. findRelevantChunks query chunks limit = map (\<lambda>j. chunks ! j) js \<and>
         list_all (\<lambda>j. j < length chunks) js \<and> distinct js \<and>
         (\<forall>a b. a < b \<and> b < length js \<and>
                score (scoreChunk query (chunks ! (js ! a))) =
                score (scoreChunk query (chunks ! (js ! b)))
                \<longrightarrow> js ! a < js ! b) \<and>
         (\<forall>a b. a < b \<and> b < length js
                \<longrightarrow> score (scoreChunk query (chunks ! (js ! b)))
                      \<le> score (scoreChunk query (chunks ! (js ! a))))) \<and>
   prefix (filter (\<lambda>c. score (scoreChunk query c) = k) (findRelevantChunks query chunks limit))
          (filter (\<lambda>c. score (scoreChunk query c) = k) chunks)"
proof -
  assume a: "\<not> (isAggregation query \<and> length chunks < 50)"
    and b: "\<not> (length (relevant query chunks limit) = 0 \<and> length chunks > 0)"
  have eq: "findRelevantChunks query chunks limit = relevant query chunks limit"
    unfolding findRelevantChunks_def using a b by (simp only: if_False simp_thms)
  obtain js where js: "relevant query chunks limit = map (\<lambda>j. chunks ! j) js"
      "list_all (\<lambda>j. j < length chunks) js" "distinct js"
      "sorted_wrt (\<lambda>i j. score (scoreChunk query (chunks ! i)) = score (scoreChunk query (chunks ! j))
                          \<longrightarrow> i < j) js"
      "sorted_wrt (\<lambda>i j. score (scoreChunk query (chunks ! i)) \<ge> score (scoreChunk query (chunks ! j))) js"
    using positions_of_relevant [of query chunks limit] by blast
  have "\<exists>js. relevant query chunks limit = map (\<lambda>j. chunks ! j) js \<and>
         list_all (\<lambda>j. j < length chunks) js \<and> distinct js \<and>
         (\<forall>a b. a < b \<and> b < length js \<and>
                score (scoreChunk query (chunks ! (js ! a))) =
                score (scoreChunk query (chunks ! (js ! b)))
                \<longrightarrow> js ! a < js ! b) \<and>
         (\<forall>a b. a < b \<and> b < length js
                \<longrightarrow> score (scoreChunk query (chunks ! (js ! b)))
                      \<le> score (scoreChunk query (chunks ! (js ! a))))"
  proof (intro exI [of _ js] conjI allI impI)
    show "relevant query chunks limit = map (\<lambda>j. chunks ! j) js" by (rule js(1))
    show "list_all (\<lambda>j. j < length chunks) js" by (rule js(2))
    show "distinct js" by (rule js(3))
  next
    fix a b
    assume "a < b \<and> b < length js \<and>
            score (scoreChunk query (chunks ! (js ! a))) = score (scoreChunk query (chunks ! (js ! b)))"
    then show "js ! a < js ! b"
      using js(4) by (simp add: sorted_wrt_iff_nth_less)
  next
    fix a b
    assume "a < b \<and> b < length js"
    then show "score (scoreChunk query (chunks ! (js ! b))) \<le> score (scoreChunk query (chunks ! (js ! a)))"
      using js(5) by (simp add: sorted_wrt_iff_nth_less)
  qed
  then show ?thesis unfolding eq using relevant_ties [of query k chunks limit] by (intro conjI)
qed

text \<open>
  The theorem at six chunks of scores \<open>[1, 12, 1, 0, 12, 1]\<close> and limit 4: the two
  chunks of score 12 come first, then the first two chunks of score 1, each group in
  input order.
\<close>

theorem ties_keep_input_order_witness:
  "\<not> (isAggregation ''apple pie'' \<and> length pies < 50) \<and>
   \<not> (length (relevant ''apple pie'' pies 4) = 0 \<and> length pies > 0) \<and>
   findRelevantChunks ''apple pie'' pies 4 = [pies ! 1, pies ! 4, pies ! 0, pies ! 2] \<and>
   prefix (filter (\<lambda>c. score (scoreChunk ''apple pie'' c) = 1) [pies ! 1, pies ! 4, pies ! 0, pies ! 2])
          (filter (\<lambda>c. score (scoreChunk ''apple pie'' c) = 1) pies)"
proof -
  have a: "\<not> (isAggregation ''apple pie'' \<and> length pies < 50)" by code_simp
  have b: "\<not> (length (relevant ''apple pie'' pies 4) = 0 \<and> length pies > 0)" by code_simp
  have r: "findRelevantChunks ''apple pie'' pies 4 = [pies ! 1, pies ! 4, pies ! 0, pies ! 2]"
    by code_simp
  from ties_keep_input_order [OF a b, of 1]
  have "prefix (filter (\<lambda>c. score (scoreChunk ''apple pie'' c) = 1) (findRelevantChunks ''apple pie'' pies 4))
          (filter (\<lambda>c. score (scoreChunk ''apple pie'' c) = 1) pies)"
    by (rule conjunct2)
  then show ?thesis using a b r by simp
qed

end
